theory Spec2Isabelle
  imports Main
begin

section \<open>The hardhat-deploy plugin for the wagmi CLI: a shallow embedding of index.ts\<close>

text \<open>
  The plugin reads a directory of hardhat-deploy export files (one JSON document per
  network), filters files by network name and contracts by name, merges the addresses
  of a contract over all chains into one record, and collapses the address mapping to a
  single address when it is the same on every chain.

  Conventions of the embedding.
  \<^item> A JavaScript string is a \<open>string\<close>; a character stands for one code unit.
  \<^item> An optional field of the configuration (\<open>includes?: RegExp[]\<close>) is an
    \<open>option\<close>: \<open>None\<close> is \<open>undefined\<close>. An array, even an empty one, is
    truthy in JavaScript, so \<open>if (config.excludes)\<close> tests for \<open>Some\<close>.
  \<^item> A \<open>RegExp\<close> is taken as the predicate its \<open>test\<close> method computes. This is
    \<open>test\<close> of a pattern without the \<open>g\<close> and \<open>y\<close> flags, which keeps no
    \<open>lastIndex\<close> between calls.
  \<^item> An exception is the \<open>Inl\<close> of a sum type.
\<close>

subsection \<open>Configuration\<close>

type_synonym RegExp = "string \<Rightarrow> bool"

definition test :: "RegExp \<Rightarrow> string \<Rightarrow> bool" where
  "test re s = re s"

text \<open>
  \<open>HardhatDeployOptions\<close>. The field \<open>includes\<close> is spelled \<open>includes'\<close>, as the
  plain word is reserved in Isabelle.
\<close>

record HardhatDeployOptions =
  directory :: string
  includes' :: "RegExp list option"
  excludes :: "RegExp list option"
  includeNetworks :: "string list option"
  excludeNetworks :: "string list option"
  namePrefix :: "string option"
  nameSuffix :: "string option"

subsection \<open>Selector: contract names\<close>

text \<open>
  The two \<open>for ... of\<close> loops of \<open>shouldInclude\<close>. The first returns \<open>false\<close>
  from the function at the first exclude that matches; the second returns \<open>true\<close> at
  the first include that matches. Each is a recursion over the array that says whether the
  loop returned early.
\<close>

fun some_test :: "RegExp list \<Rightarrow> string \<Rightarrow> bool" where
  "some_test [] name = False"
| "some_test (re # res) name = (if test re name then True else some_test res name)"

definition shouldInclude :: "string \<Rightarrow> HardhatDeployOptions \<Rightarrow> bool" where
  "shouldInclude name config =
     (if (case excludes config of None \<Rightarrow> False | Some es \<Rightarrow> some_test es name) then False
      else (case includes' config of
              Some is \<Rightarrow> (if some_test is name then True else False)
            | None \<Rightarrow> True))"

subsection \<open>Selector: files\<close>

text \<open>
  \<open>shouldIncludeFile\<close> calls \<open>path.basename(fileName, ".json")\<close> of Node's
  \<open>path\<close> module (the POSIX variant, whose only separator is the slash). The function
  scans the path from its last code unit to its first, and is embedded with its loop
  variables \<open>start\<close>, \<open>end\<close>, \<open>matchedSlash\<close>, \<open>extIdx\<close> and
  \<open>firstNonSlashEnd\<close>; \<open>end\<close> is spelled \<open>end'\<close>. The loop counter of the
  recursion is one more than the index \<open>i\<close> under inspection. \<open>Inl\<close> is the state
  at \<open>break\<close>, \<open>Inr\<close> the state after an iteration that goes on.
\<close>

record scan =
  start :: nat
  end' :: int
  matchedSlash :: bool
  extIdx :: int
  firstNonSlashEnd :: int

definition scan_step :: "string \<Rightarrow> string \<Rightarrow> nat \<Rightarrow> scan \<Rightarrow> scan + scan" where
  "scan_step path suffix i st =
     (let code = path ! i in
      if code = CHR ''/'' then
        (if \<not> matchedSlash st then Inl (st\<lparr>start := i + 1\<rparr>) else Inr st)
      else
        (let st1 = (if firstNonSlashEnd st = - 1
                    then st\<lparr>matchedSlash := False, firstNonSlashEnd := int i + 1\<rparr>
                    else st)
         in if 0 \<le> extIdx st1 then
              (if code = suffix ! nat (extIdx st1) then
                 (let st2 = st1\<lparr>extIdx := extIdx st1 - 1\<rparr>
                  in if extIdx st2 = - 1 then Inr (st2\<lparr>end' := int i\<rparr>) else Inr st2)
               else Inr (st1\<lparr>extIdx := - 1, end' := firstNonSlashEnd st1\<rparr>))
            else Inr st1))"

fun scan_loop :: "string \<Rightarrow> string \<Rightarrow> nat \<Rightarrow> scan \<Rightarrow> scan" where
  "scan_loop path suffix 0 st = st"
| "scan_loop path suffix (Suc i) st =
     (case scan_step path suffix i st of
        Inl st' \<Rightarrow> st'
      | Inr st' \<Rightarrow> scan_loop path suffix i st')"

text \<open>\<open>String.prototype.slice\<close> for the arguments the function passes.\<close>

definition slice :: "string \<Rightarrow> nat \<Rightarrow> int \<Rightarrow> string" where
  "slice s from to = take (nat to - from) (drop from s)"

text \<open>The loop of \<open>basename\<close> for a call without a usable suffix.\<close>

fun plain_loop :: "string \<Rightarrow> nat \<Rightarrow> scan \<Rightarrow> scan" where
  "plain_loop path 0 st = st"
| "plain_loop path (Suc i) st =
     (if path ! i = CHR ''/'' then
        (if \<not> matchedSlash st then st\<lparr>start := i + 1\<rparr> else plain_loop path i st)
      else if end' st = - 1 then
        plain_loop path i (st\<lparr>matchedSlash := False, end' := int i + 1\<rparr>)
      else plain_loop path i st)"

definition basename :: "string \<Rightarrow> string \<Rightarrow> string" where
  "basename path suffix =
     (let st0 = \<lparr>start = 0, end' = - 1, matchedSlash = True,
                extIdx = int (length suffix) - 1, firstNonSlashEnd = - 1\<rparr>
      in if 0 < length suffix \<and> length suffix \<le> length path then
           (if suffix = path then []
            else
              (let st = scan_loop path suffix (length path) st0;
                   e = (if int (start st) = end' st then firstNonSlashEnd st
                        else if end' st = - 1 then int (length path)
                        else end' st)
               in slice path (start st) e))
         else
           (let st = plain_loop path (length path) st0
            in if end' st = - 1 then [] else slice path (start st) (end' st)))"

text \<open>
  \<open>Array.prototype.includes\<close> on an array of strings is list membership. The test
  \<open>config.includeNetworks && config.includeNetworks.length > 0\<close> holds for a
  present, non-empty array.
\<close>

definition shouldIncludeFile :: "string \<Rightarrow> HardhatDeployOptions \<Rightarrow> bool" where
  "shouldIncludeFile fileName config =
     (let networkName = basename fileName ''.json''
      in if (case includeNetworks config of
               None \<Rightarrow> False
             | Some ns \<Rightarrow> 0 < length ns \<and> networkName \<notin> set ns) then False
         else if (case excludeNetworks config of
                    None \<Rightarrow> False
                  | Some ns \<Rightarrow> 0 < length ns \<and> networkName \<in> set ns) then False
         else True)"

subsection \<open>JavaScript objects as ordered property lists\<close>

text \<open>
  The accumulator \<open>acc\<close> and every address mapping are plain objects. \<open>Object.values\<close>
  and \<open>Object.entries\<close> list the own properties in the order of the language: the
  keys that are array indices (canonical decimal numerals below \<open>2^32 - 1\<close>) first, in
  ascending numeric order, then all other keys in the order of their creation. An object
  is embedded as the list of its own properties in that order, and an assignment
  \<open>obj[k] = v\<close> keeps the place of a key that exists and puts a new key where the
  language puts it.
\<close>

type_synonym 'v jsobj = "(string \<times> 'v) list"

definition digit_char :: "nat \<Rightarrow> char" where
  "digit_char d = ''0123456789'' ! d"

function decimal :: "nat \<Rightarrow> string" where
  "decimal n = (if n < 10 then [digit_char n] else decimal (n div 10) @ [digit_char (n mod 10)])"
  by pat_completeness auto
termination
  by (relation "measure (\<lambda>n. n)") auto

declare decimal.simps [simp del]

definition is_digit :: "char \<Rightarrow> bool" where
  "is_digit c = (48 \<le> (of_char c :: nat) \<and> (of_char c :: nat) \<le> 57)"

definition decimal_value :: "string \<Rightarrow> nat" where
  "decimal_value s = foldl (\<lambda>n c. 10 * n + ((of_char c :: nat) - 48)) 0 s"

definition is_array_index :: "string \<Rightarrow> bool" where
  "is_array_index k =
     (list_all is_digit k \<and> decimal (decimal_value k) = k \<and> decimal_value k < 4294967295)"

definition obj_get :: "'v jsobj \<Rightarrow> string \<Rightarrow> 'v option" where
  "obj_get obj k = map_of obj k"

fun obj_replace :: "'v jsobj \<Rightarrow> string \<Rightarrow> 'v \<Rightarrow> 'v jsobj" where
  "obj_replace [] k v = []"
| "obj_replace ((k', v') # ps) k v =
     (if k' = k then (k, v) # ps else (k', v') # obj_replace ps k v)"

fun obj_insert_index :: "'v jsobj \<Rightarrow> string \<Rightarrow> 'v \<Rightarrow> 'v jsobj" where
  "obj_insert_index [] k v = [(k, v)]"
| "obj_insert_index ((k', v') # ps) k v =
     (if is_array_index k' \<and> decimal_value k' < decimal_value k
      then (k', v') # obj_insert_index ps k v
      else (k, v) # (k', v') # ps)"

definition obj_set :: "'v jsobj \<Rightarrow> string \<Rightarrow> 'v \<Rightarrow> 'v jsobj" where
  "obj_set obj k v =
     (if obj_get obj k \<noteq> None then obj_replace obj k v
      else if is_array_index k then obj_insert_index obj k v
      else obj @ [(k, v)])"

definition Object_values :: "'v jsobj \<Rightarrow> 'v list" where
  "Object_values obj = map snd obj"

definition Object_keys :: "'v jsobj \<Rightarrow> string list" where
  "Object_keys obj = map fst obj"

text \<open>
  A read \<open>acc[k]\<close> of a key that is not an own property goes on to
  \<open>Object.prototype\<close>, which has these properties.
\<close>

definition Object_prototype_keys :: "string list" where
  "Object_prototype_keys =
     [''constructor'', ''__defineGetter__'', ''__defineSetter__'', ''hasOwnProperty'',
      ''__lookupGetter__'', ''__lookupSetter__'', ''isPrototypeOf'',
      ''propertyIsEnumerable'', ''toString'', ''valueOf'', ''__proto__'',
      ''toLocaleString'']"

subsection \<open>Numbers: \<open>Number.parseInt\<close> and the property key of a number\<close>

text \<open>
  \<open>Number.parseInt\<close> without a radix skips leading white space, reads a sign, reads
  \<open>0x\<close> or \<open>0X\<close> as the mark of radix 16, and takes the longest prefix of digits of
  the radix; with no digit the result is \<open>NaN\<close>. The value is kept as an exact integer,
  which is what the double holds up to \<open>2^53\<close>.
\<close>

datatype jsnum = NaN | Num int

definition isWhiteSpace :: "char \<Rightarrow> bool" where
  "isWhiteSpace c = ((of_char c :: nat) \<in> set [9, 10, 11, 12, 13, 32, 160])"

definition digit_of :: "char \<Rightarrow> nat option" where
  "digit_of c =
     (let n = (of_char c :: nat)
      in if 48 \<le> n \<and> n \<le> 57 then Some (n - 48)
         else if 97 \<le> n \<and> n \<le> 122 then Some (n - 87)
         else if 65 \<le> n \<and> n \<le> 90 then Some (n - 55)
         else None)"

definition is_radix_digit :: "nat \<Rightarrow> char \<Rightarrow> bool" where
  "is_radix_digit R c = (case digit_of c of None \<Rightarrow> False | Some d \<Rightarrow> d < R)"

definition radix_value :: "nat \<Rightarrow> string \<Rightarrow> nat" where
  "radix_value R z = foldl (\<lambda>n c. R * n + (case digit_of c of None \<Rightarrow> 0 | Some d \<Rightarrow> d)) 0 z"

definition parseInt :: "string \<Rightarrow> jsnum" where
  "parseInt string =
     (let S = dropWhile isWhiteSpace string;
          negative = (take 1 S = ''-'');
          S1 = (if take 1 S = ''+'' \<or> take 1 S = ''-'' then drop 1 S else S);
          hex = (take 2 S1 = ''0x'' \<or> take 2 S1 = ''0X'');
          R = (if hex then 16 else 10);
          S2 = (if hex then drop 2 S1 else S1);
          Z = takeWhile (is_radix_digit R) S2
      in if Z = [] then NaN
         else Num ((if negative then - 1 else 1) * int (radix_value R Z)))"

definition ToString :: "jsnum \<Rightarrow> string" where
  "ToString x =
     (case x of
        NaN \<Rightarrow> ''NaN''
      | Num n \<Rightarrow> (if n < 0 then ''-'' @ decimal (nat (- n)) else decimal (nat n)))"

subsection \<open>Export files and the registry\<close>

text \<open>
  \<open>ContractExport\<close> and \<open>Export\<close> are the interfaces of the source; the ABI is
  kept abstract. The field \<open>linkedData\<close> is left out: no code reads it. The cast
  \<open>as Export\<close> is not checked at run time, and the embedding covers the documents
  that have the shape of the interface. \<open>contracts\<close> is the list that
  \<open>Object.entries\<close> gives.

  \<open>ContractConfig\<close> is the record of \<open>@wagmi/cli\<close>, whose address is a single
  address or an object from chain id to address.
\<close>

record 'abi ContractExport =
  address :: string
  abi :: 'abi

record 'abi Export =
  chainId :: string
  name :: string
  contracts :: "'abi ContractExport jsobj"

datatype address_repr = Scalar string | ByChain "string jsobj"

record 'abi ContractConfig =
  name :: string
  abi :: 'abi
  address :: address_repr

datatype error = IOError string | SyntaxError string | TypeError

text \<open>
  The file system, as the plugin sees it. \<open>listing\<close> is the result of
  \<open>fs.readdirSync(config.directory)\<close>, in the order it has; \<open>document file\<close> is
  the outcome of \<open>JSON.parse(fs.readFileSync(path.join(config.directory, file)).toString())\<close>:
  the read throws, the parser throws a \<open>SyntaxError\<close> with its message, or the parser
  returns the document.
\<close>

datatype 'abi outcome = ReadThrows string | ParseThrows string | Parsed "'abi Export"

record 'abi Directory =
  listing :: "string + string list"
  document :: "string \<Rightarrow> 'abi outcome"

subsection \<open>Merger: the fold\<close>

text \<open>
  One pass of the body of the inner loop, for one entry of \<open>deployment.contracts\<close>.
  The read \<open>acc[contractName]\<close> finds an own property, or a property of
  \<open>Object.prototype\<close>, or \<open>undefined\<close>. A property of the prototype is truthy and
  has no \<open>address\<close>, so the assignment \<open>addresses[chainId] = address\<close> throws a
  \<open>TypeError\<close>; so does the assignment to a property of a string. A local variable
  that has the name of a field of a record is spelled with a prime.
\<close>

definition merge_contract ::
  "HardhatDeployOptions \<Rightarrow> jsnum \<Rightarrow> 'abi ContractConfig jsobj \<Rightarrow> string \<times> 'abi ContractExport
     \<Rightarrow> error + 'abi ContractConfig jsobj" where
  "merge_contract config chainId' acc entry =
     (let name = fst entry; abi = ContractExport.abi (snd entry);
          address = ContractExport.address (snd entry)
      in if shouldInclude name config then
           (let contractName =
                  (case namePrefix config of None \<Rightarrow> [] | Some p \<Rightarrow> p) @ name @
                  (case nameSuffix config of None \<Rightarrow> [] | Some s \<Rightarrow> s)
            in if obj_get acc contractName = None \<and> contractName \<in> set Object_prototype_keys
               then Inl TypeError
               else
                 (let contract =
                        (case obj_get acc contractName of
                           Some c \<Rightarrow> c
                         | None \<Rightarrow> \<lparr>name = contractName, abi = abi, address = ByChain []\<rparr>)
                  in case ContractConfig.address contract of
                       Scalar s \<Rightarrow> Inl TypeError
                     | ByChain addresses \<Rightarrow>
                         Inr (obj_set acc contractName
                                (contract\<lparr>address :=
                                   ByChain (obj_set addresses (ToString chainId') address)\<rparr>))))
         else Inr acc)"

fun merge_contracts ::
  "HardhatDeployOptions \<Rightarrow> jsnum \<Rightarrow> 'abi ContractConfig jsobj \<Rightarrow> 'abi ContractExport jsobj
     \<Rightarrow> error + 'abi ContractConfig jsobj" where
  "merge_contracts config chainId' acc [] = Inr acc"
| "merge_contracts config chainId' acc (entry # entries) =
     (case merge_contract config chainId' acc entry of
        Inl e \<Rightarrow> Inl e
      | Inr acc' \<Rightarrow> merge_contracts config chainId' acc' entries)"

text \<open>The callback of \<open>files.reduce\<close>, and the reduction.\<close>

definition merge_file ::
  "HardhatDeployOptions \<Rightarrow> 'abi Directory \<Rightarrow> 'abi ContractConfig jsobj \<Rightarrow> string
     \<Rightarrow> error + 'abi ContractConfig jsobj" where
  "merge_file config dir acc file =
     (case document dir file of
        ReadThrows msg \<Rightarrow> Inl (IOError msg)
      | ParseThrows msg \<Rightarrow> Inl (SyntaxError msg)
      | Parsed deployment \<Rightarrow>
          (let chainId' = parseInt (chainId deployment)
           in merge_contracts config chainId' acc (contracts deployment)))"

fun reduce_files ::
  "HardhatDeployOptions \<Rightarrow> 'abi Directory \<Rightarrow> 'abi ContractConfig jsobj \<Rightarrow> string list
     \<Rightarrow> error + 'abi ContractConfig jsobj" where
  "reduce_files config dir acc [] = Inr acc"
| "reduce_files config dir acc (file # files) =
     (case merge_file config dir acc file of
        Inl e \<Rightarrow> Inl e
      | Inr acc' \<Rightarrow> reduce_files config dir acc' files)"

subsection \<open>Merger: the simplification\<close>

text \<open>
  A \<open>Set\<close> keeps its members in the order of insertion, and adding a member that
  is there changes nothing, so \<open>[...new Set(addresses)]\<close> keeps the first occurrence
  of every value, in order.
  \<open>Object.values\<close> of an address object is the list of its addresses; of a string it
  is the list of its one-character strings.
\<close>

definition Set_add :: "string list \<Rightarrow> string \<Rightarrow> string list" where
  "Set_add seen x = (if x \<in> set seen then seen else seen @ [x])"

definition Set_spread :: "string list \<Rightarrow> string list" where
  "Set_spread xs = foldl Set_add [] xs"

definition address_values :: "address_repr \<Rightarrow> string list" where
  "address_values a = (case a of ByChain m \<Rightarrow> Object_values m | Scalar s \<Rightarrow> map (\<lambda>c. [c]) s)"

definition simplify :: "'abi ContractConfig \<Rightarrow> 'abi ContractConfig" where
  "simplify contract =
     (let addresses = address_values (ContractConfig.address contract);
          unique = Set_spread addresses
      in contract\<lparr>address :=
           (if length unique = 1 then Scalar (unique ! 0) else ContractConfig.address contract)\<rparr>)"

subsection \<open>The plugin\<close>

definition plugin_contracts ::
  "HardhatDeployOptions \<Rightarrow> 'abi Directory \<Rightarrow> error + 'abi ContractConfig list" where
  "plugin_contracts config dir =
     (case listing dir of
        Inl msg \<Rightarrow> Inl (IOError msg)
      | Inr names \<Rightarrow>
          (let files = filter (\<lambda>file. shouldIncludeFile file config) names
           in case reduce_files config dir [] files of
                Inl e \<Rightarrow> Inl e
              | Inr contracts' \<Rightarrow> Inr (map simplify (Object_values contracts'))))"

subsection \<open>Notions of the specification\<close>

text \<open>
  These definitions follow the words of the specification, not the code; the theorems
  compare the code with them.

  The network identifier of the specification: the base name of the file without its
  extension, the extension being what follows the last dot of the base name (a dot at the
  start of the name begins no extension).
\<close>

definition spec_network_id :: "string \<Rightarrow> string" where
  "spec_network_id fileName =
     (let base = basename fileName []
      in if CHR ''.'' \<in> set (tl base)
         then rev (tl (dropWhile (\<lambda>c. c \<noteq> CHR ''.'') (rev base)))
         else base)"

definition spec_shouldIncludeFile :: "string \<Rightarrow> HardhatDeployOptions \<Rightarrow> bool" where
  "spec_shouldIncludeFile fileName config =
     (let networkName = spec_network_id fileName
      in if (case includeNetworks config of
               None \<Rightarrow> False
             | Some ns \<Rightarrow> ns \<noteq> [] \<and> networkName \<notin> set ns) then False
         else if (case excludeNetworks config of
                    None \<Rightarrow> False
                  | Some ns \<Rightarrow> ns \<noteq> [] \<and> networkName \<in> set ns) then False
         else True)"

text \<open>
  The records that the fold meets, in the order of the scan: for every file in turn, for
  every contract of the file that the selector keeps, the transformed key, the property
  key of the chain id, and the record.
\<close>

definition transformed :: "HardhatDeployOptions \<Rightarrow> string \<Rightarrow> string" where
  "transformed config name' =
     (case namePrefix config of None \<Rightarrow> [] | Some p \<Rightarrow> p) @ name' @
     (case nameSuffix config of None \<Rightarrow> [] | Some s \<Rightarrow> s)"

definition entry_events ::
  "HardhatDeployOptions \<Rightarrow> jsnum \<Rightarrow> 'abi ContractExport jsobj
     \<Rightarrow> (string \<times> string \<times> 'abi ContractExport) list" where
  "entry_events config chainId' entries =
     map (\<lambda>entry. (transformed config (fst entry), ToString chainId', snd entry))
       (filter (\<lambda>entry. shouldInclude (fst entry) config) entries)"

definition file_events ::
  "HardhatDeployOptions \<Rightarrow> 'abi Directory \<Rightarrow> string
     \<Rightarrow> (string \<times> string \<times> 'abi ContractExport) list" where
  "file_events config dir file =
     (case document dir file of
        Parsed deployment \<Rightarrow>
          entry_events config (parseInt (chainId deployment)) (contracts deployment)
      | _ \<Rightarrow> [])"

definition events ::
  "HardhatDeployOptions \<Rightarrow> 'abi Directory \<Rightarrow> string list
     \<Rightarrow> (string \<times> string \<times> 'abi ContractExport) list" where
  "events config dir files = concat (map (file_events config dir) files)"

text \<open>The keys in the order in which the scan meets each of them first.\<close>

definition first_encounter_order ::
  "HardhatDeployOptions \<Rightarrow> 'abi Directory \<Rightarrow> string list \<Rightarrow> string list" where
  "first_encounter_order config dir files = Set_spread (map fst (events config dir files))"

text \<open>The records met for one key, and the address that the last of them gives to a chain.\<close>

definition events_of ::
  "string \<Rightarrow> (string \<times> string \<times> 'abi ContractExport) list
     \<Rightarrow> (string \<times> 'abi ContractExport) list" where
  "events_of k evs = map snd (filter (\<lambda>ev. fst ev = k) evs)"

definition last_address :: "(string \<times> 'abi ContractExport) list \<Rightarrow> string \<Rightarrow> string option" where
  "last_address evs chain =
     map_of (rev (map (\<lambda>ev. (fst ev, ContractExport.address (snd ev))) evs)) chain"

subsection \<open>The invariant of the fold\<close>

text \<open>
  What an accumulator holds after the fold has met the records \<open>evs\<close>: its keys are
  distinct; a key is there exactly when a record was met for it; the entry of a key has
  the key as its name, the ABI of the first record met for the key, and an address object
  that is not empty and gives every chain the address of the last record met for the key
  and the chain.
\<close>

definition represents ::
  "'abi ContractConfig jsobj \<Rightarrow> (string \<times> string \<times> 'abi ContractExport) list \<Rightarrow> bool" where
  "represents acc evs =
     (distinct (map fst acc) \<and>
      (\<forall>k. case obj_get acc k of
             None \<Rightarrow> events_of k evs = []
           | Some c \<Rightarrow>
               events_of k evs \<noteq> [] \<and> name c = k \<and>
               abi c = ContractExport.abi (snd (hd (events_of k evs))) \<and>
               (\<exists>m. address c = ByChain m \<and> m \<noteq> [] \<and>
                    (\<forall>chain. obj_get m chain = last_address (events_of k evs) chain))))"

text \<open>
  The keys of an object after an assignment, as a function of the keys before it, and the
  order that the keys of an object have: the array indices first, in ascending numeric
  order, then the other keys.
\<close>

fun key_insert_index :: "string list \<Rightarrow> string \<Rightarrow> string list" where
  "key_insert_index [] k = [k]"
| "key_insert_index (k' # ks) k =
     (if is_array_index k' \<and> decimal_value k' < decimal_value k
      then k' # key_insert_index ks k
      else k # k' # ks)"

definition key_set :: "string list \<Rightarrow> string \<Rightarrow> string list" where
  "key_set ks k =
     (if k \<in> set ks then ks
      else if is_array_index k then key_insert_index ks k
      else ks @ [k])"

fun key_order :: "string list \<Rightarrow> bool" where
  "key_order [] = True"
| "key_order (k # ks) =
     (if is_array_index k
      then key_order ks \<and> (\<forall>k' \<in> set ks. is_array_index k' \<longrightarrow> decimal_value k < decimal_value k')
      else (\<forall>k' \<in> set ks. \<not> is_array_index k'))"

subsection \<open>Example inputs\<close>

definition cfg_default :: HardhatDeployOptions where
  "cfg_default =
     \<lparr>directory = ''deployments'', includes' = None, excludes = None,
        includeNetworks = None, excludeNetworks = None,
        namePrefix = None, nameSuffix = None\<rparr>"

definition export_of :: "string \<Rightarrow> string \<Rightarrow> string ContractExport jsobj \<Rightarrow> string outcome" where
  "export_of chain network entries =
     Parsed \<lparr>chainId = chain, Export.name = network, contracts = entries\<rparr>"

definition record_of :: "string \<Rightarrow> string \<Rightarrow> string ContractExport" where
  "record_of addr abi' = \<lparr>ContractExport.address = addr, ContractExport.abi = abi'\<rparr>"

definition dir_order :: "string Directory" where
  "dir_order =
     \<lparr>listing = Inr [''a.json'', ''b.json''],
        document = (\<lambda>file.
          if file = ''a.json'' then export_of ''5'' ''a'' [(''B'', record_of ''0xAA'' ''abiB'')]
          else if file = ''b.json'' then export_of ''7'' ''b'' [(''1'', record_of ''0xBB'' ''abi1'')]
          else ReadThrows ''ENOENT'')\<rparr>"



definition dir_dup :: "string Directory" where
  "dir_dup =
     \<lparr>listing = Inr [''a.json'', ''b.json'', ''c.json''],
        document = (\<lambda>file.
          if file = ''a.json'' then
            export_of ''5'' ''a'' [(''Foo'', record_of ''0xAA'' ''abiA'')]
          else if file = ''b.json'' then
            export_of ''5'' ''b''
              [(''Bar'', record_of ''0xCC'' ''abiBar''), (''Foo'', record_of ''0xBB'' ''abiB'')]
          else if file = ''c.json'' then
            export_of ''7'' ''c''
              [(''Foo'', record_of ''0xBB'' ''abiC''), (''Bar'', record_of ''0xDD'' ''abiBar2'')]
          else ReadThrows ''ENOENT'')\<rparr>"

definition dir_mixed :: "string Directory" where
  "dir_mixed =
     \<lparr>listing = Inr [''a.json'', ''b.json''],
        document = (\<lambda>file.
          if file = ''a.json'' then
            export_of ''5'' ''a''
              [(''10'', record_of ''0xA1'' ''abi10''), (''B'', record_of ''0xA2'' ''abiB'')]
          else if file = ''b.json'' then
            export_of ''7'' ''b''
              [(''9'', record_of ''0xB1'' ''abi9''), (''A'', record_of ''0xB2'' ''abiA''),
               (''B'', record_of ''0xA2'' ''abiB2'')]
          else ReadThrows ''ENOENT'')\<rparr>"

section \<open>Properties of the selector\<close>

lemma some_test_iff: "some_test res n = (\<exists>re \<in> set res. test re n)"
  by (induction res) auto

lemma excluded_iff:
  "(case excludes config of None \<Rightarrow> False | Some es \<Rightarrow> some_test es n) =
   (\<exists>es re. excludes config = Some es \<and> re \<in> set es \<and> test re n)"
  by (auto simp: some_test_iff split: option.splits)

text \<open>
  Claim C5. A name that some pattern of the excludes list matches is rejected, whatever
  the includes list holds.
\<close>

theorem shouldInclude_excluded:
  assumes "excludes config = Some es" and "re \<in> set es" and "test re n"
  shows "\<not> shouldInclude n config"
  using assms by (auto simp: shouldInclude_def some_test_iff)

theorem shouldInclude_excluded_witness:
  "excludes (cfg_default\<lparr>includes' := Some [\<lambda>s. True], excludes := Some [\<lambda>s. s = ''Foo'']\<rparr>)
     = Some [\<lambda>s. s = ''Foo'']
   \<and> test (\<lambda>s. s = ''Foo'') ''Foo''
   \<and> \<not> shouldInclude ''Foo''
         (cfg_default\<lparr>includes' := Some [\<lambda>s. True], excludes := Some [\<lambda>s. s = ''Foo'']\<rparr>)"
  using shouldInclude_excluded
    [of "cfg_default\<lparr>includes' := Some [\<lambda>s. True], excludes := Some [\<lambda>s. s = ''Foo'']\<rparr>"
        "[\<lambda>s. s = ''Foo'']" "\<lambda>s. s = ''Foo''" "''Foo''"]
  by (simp add: test_def)

text \<open>
  Claim C6. For a name that no exclude matches and a non-empty includes list, the name
  is accepted exactly when some pattern of the includes list matches it.
\<close>

theorem shouldInclude_includes_iff:
  assumes "\<forall>re \<in> set (case excludes config of None \<Rightarrow> [] | Some es \<Rightarrow> es). \<not> test re n"
    and "includes' config = Some incs" and "incs \<noteq> []"
  shows "shouldInclude n config = (\<exists>re \<in> set incs. test re n)"
proof -
  have "\<not> (case excludes config of None \<Rightarrow> False | Some es \<Rightarrow> some_test es n)"
    using assms(1) by (auto simp: excluded_iff)
  then show ?thesis
    using assms(2) by (simp add: shouldInclude_def some_test_iff)
qed

theorem shouldInclude_includes_iff_witness:
  "shouldInclude ''Token''
     (cfg_default\<lparr>includes' := Some [\<lambda>s. s = ''Token''], excludes := Some [\<lambda>s. s = ''Mock'']\<rparr>)
   \<and> \<not> shouldInclude ''Vault''
     (cfg_default\<lparr>includes' := Some [\<lambda>s. s = ''Token''], excludes := Some [\<lambda>s. s = ''Mock'']\<rparr>)"
  using
    shouldInclude_includes_iff
      [of "cfg_default\<lparr>includes' := Some [\<lambda>s. s = ''Token''], excludes := Some [\<lambda>s. s = ''Mock'']\<rparr>"
          "''Token''" "[\<lambda>s. s = ''Token'']"]
    shouldInclude_includes_iff
      [of "cfg_default\<lparr>includes' := Some [\<lambda>s. s = ''Token''], excludes := Some [\<lambda>s. s = ''Mock'']\<rparr>"
          "''Vault''" "[\<lambda>s. s = ''Token'']"]
  by (simp add: test_def)

text \<open>
  Claim C1, as the code has it. For a name that no exclude matches: with no includes list
  the name is accepted; with an includes list that is present and empty the name is
  rejected, since the loop over the list finds no match and the function returns false.
\<close>

theorem shouldInclude_without_includes:
  assumes "\<forall>re \<in> set (case excludes config of None \<Rightarrow> [] | Some es \<Rightarrow> es). \<not> test re n"
  shows "(includes' config = None \<longrightarrow> shouldInclude n config) \<and>
         (includes' config = Some [] \<longrightarrow> \<not> shouldInclude n config)"
proof -
  have "\<not> (case excludes config of None \<Rightarrow> False | Some es \<Rightarrow> some_test es n)"
    using assms by (auto simp: excluded_iff)
  then show ?thesis
    by (simp add: shouldInclude_def)
qed

theorem shouldInclude_without_includes_witness:
  "shouldInclude ''Foo'' (cfg_default\<lparr>excludes := Some [\<lambda>s. s = ''Bar'']\<rparr>)
   \<and> \<not> shouldInclude ''Foo''
         (cfg_default\<lparr>includes' := Some [], excludes := Some [\<lambda>s. s = ''Bar'']\<rparr>)"
  using
    shouldInclude_without_includes [of "cfg_default\<lparr>excludes := Some [\<lambda>s. s = ''Bar'']\<rparr>" "''Foo''"]
    shouldInclude_without_includes
      [of "cfg_default\<lparr>includes' := Some [], excludes := Some [\<lambda>s. s = ''Bar'']\<rparr>" "''Foo''"]
  by (simp add: test_def cfg_default_def)

text \<open>
  The claim as the specification states it fails: with no excludes and an empty includes
  list the name \<open>Foo\<close> is rejected.
\<close>

theorem shouldInclude_empty_includes_counterexample:
  "excludes (cfg_default\<lparr>includes' := Some []\<rparr>) = None
   \<and> includes' (cfg_default\<lparr>includes' := Some []\<rparr>) = Some []
   \<and> \<not> shouldInclude ''Foo'' (cfg_default\<lparr>includes' := Some []\<rparr>)"
  by (simp add: shouldInclude_def cfg_default_def)

text \<open>
  Claim C9. With \<open>includeNetworks\<close> and \<open>excludeNetworks\<close> each absent or empty,
  every file is selected.
\<close>

theorem shouldIncludeFile_default:
  assumes "includeNetworks config = None \<or> includeNetworks config = Some []"
    and "excludeNetworks config = None \<or> excludeNetworks config = Some []"
  shows "shouldIncludeFile f config"
  using assms by (auto simp: shouldIncludeFile_def)

theorem shouldIncludeFile_default_witness:
  "shouldIncludeFile ''mainnet.json'' (cfg_default\<lparr>includeNetworks := Some []\<rparr>)"
  using shouldIncludeFile_default [of "cfg_default\<lparr>includeNetworks := Some []\<rparr>" "''mainnet.json''"]
  by (simp add: cfg_default_def)

subsection \<open>The base name of a file\<close>

lemma take_eq_last:
  assumes "0 < k" "k \<le> length xs" "k \<le> length ys"
  shows "(take k xs = take k ys) \<longleftrightarrow>
         (take (k - 1) xs = take (k - 1) ys \<and> xs ! (k - 1) = ys ! (k - 1))"
proof -
  obtain n where K: "k = Suc n"
    using assms(1) by (cases k) auto
  have "take (Suc n) xs = take n xs @ [xs ! n]" "take (Suc n) ys = take n ys @ [ys ! n]"
    using assms(2,3) K by (simp_all add: take_Suc_conv_app_nth)
  then show ?thesis
    using K by simp
qed

lemma plain_loop_idle:
  "end' st \<noteq> - 1 \<Longrightarrow> \<forall>j<i. path ! j \<noteq> CHR ''/'' \<Longrightarrow> plain_loop path i st = st"
  by (induction i) simp_all

lemma plain_loop_first:
  assumes "end' st = - 1" "\<forall>j<i. path ! j \<noteq> CHR ''/''" "0 < i"
  shows "plain_loop path i st = st\<lparr>matchedSlash := False, end' := int i\<rparr>"
proof -
  obtain n where I: "i = Suc n"
    using assms(3) by (cases i) auto
  have "plain_loop path n (st\<lparr>matchedSlash := False, end' := int n + 1\<rparr>) =
        st\<lparr>matchedSlash := False, end' := int n + 1\<rparr>"
    using assms(2) I by (intro plain_loop_idle) auto
  then show ?thesis
    using assms(1,2) I by simp
qed

lemma scan_loop_idle:
  "extIdx st = - 1 \<Longrightarrow> firstNonSlashEnd st \<noteq> - 1 \<Longrightarrow> \<forall>j<i. path ! j \<noteq> CHR ''/'' \<Longrightarrow>
   scan_loop path suffix i st = st"
  by (induction i) (simp_all add: scan_step_def Let_def)

lemma scan_loop_match:
  "\<forall>j<i. path ! j \<noteq> CHR ''/'' \<Longrightarrow> i \<le> length path \<Longrightarrow> 0 < k \<Longrightarrow> k \<le> i \<Longrightarrow>
   k \<le> length suffix \<Longrightarrow> extIdx st = int k - 1 \<Longrightarrow>
   start (scan_loop path suffix i st) = start st \<and>
   firstNonSlashEnd (scan_loop path suffix i st) =
     (if firstNonSlashEnd st = - 1 then int i else firstNonSlashEnd st) \<and>
   end' (scan_loop path suffix i st) =
     (if take k (drop (i - k) path) = take k suffix then int (i - k)
      else if firstNonSlashEnd st = - 1 then int i else firstNonSlashEnd st)"
proof (induction i arbitrary: st k)
  case 0
  then show ?case by simp
next
  case (Suc i)
  define F where "F = (if firstNonSlashEnd st = - 1 then int (Suc i) else firstNonSlashEnd st)"
  define st1 where
    "st1 = (if firstNonSlashEnd st = - 1
            then st\<lparr>matchedSlash := False, firstNonSlashEnd := int i + 1\<rparr> else st)"
  have st1: "extIdx st1 = int k - 1" "firstNonSlashEnd st1 = F" "start st1 = start st"
    using Suc.prems by (auto simp: st1_def F_def)
  have F: "F \<noteq> - 1"
    by (auto simp: F_def)
  have slash: "path ! i \<noteq> CHR ''/''" and rest: "\<forall>j<i. path ! j \<noteq> CHR ''/''"
    using Suc.prems(1) by auto
  have nk: "nat (int k - 1) = k - 1" "0 \<le> int k - 1"
    using Suc.prems(3) by auto
  have len: "k \<le> length (drop (Suc i - k) path)"
    using Suc.prems by simp
  have nth: "drop (Suc i - k) path ! (k - 1) = path ! i"
    using Suc.prems by simp
  note cmp = take_eq_last [OF Suc.prems(3) len Suc.prems(5), unfolded nth]
  show ?case
  proof (cases "path ! i = suffix ! (k - 1)")
    case False
    then have step: "scan_step path suffix i st = Inr (st1\<lparr>extIdx := - 1, end' := F\<rparr>)"
      using slash st1 nk by (simp add: scan_step_def Let_def st1_def [symmetric])
    have "scan_loop path suffix i (st1\<lparr>extIdx := - 1, end' := F\<rparr>) =
          st1\<lparr>extIdx := - 1, end' := F\<rparr>"
      using rest st1 F by (intro scan_loop_idle) auto
    then show ?thesis
      using step st1 False cmp by (simp add: F_def)
  next
    case True
    show ?thesis
    proof (cases "k = 1")
      case k1: True
      have step: "scan_step path suffix i st = Inr (st1\<lparr>extIdx := - 1, end' := int i\<rparr>)"
        using slash st1 nk True k1 by (simp add: scan_step_def Let_def st1_def [symmetric])
      have "scan_loop path suffix i (st1\<lparr>extIdx := - 1, end' := int i\<rparr>) =
            st1\<lparr>extIdx := - 1, end' := int i\<rparr>"
        using rest st1 F by (intro scan_loop_idle) auto
      then show ?thesis
        using step st1 True cmp k1 by (simp add: F_def)
    next
      case k2: False
      define st2 where "st2 = st1\<lparr>extIdx := int k - 2\<rparr>"
      have step: "scan_step path suffix i st = Inr st2"
        using slash st1 nk True k2 Suc.prems(3)
        by (simp add: scan_step_def Let_def st1_def [symmetric] st2_def)
      have idx: "i - (k - 1) = Suc i - k"
        using Suc.prems k2 by simp
      have st2: "firstNonSlashEnd st2 = F" "start st2 = start st" "(F = - 1) = False"
        using F by (simp_all add: st2_def st1)
      have "start (scan_loop path suffix i st2) = start st2 \<and>
            firstNonSlashEnd (scan_loop path suffix i st2) =
              (if firstNonSlashEnd st2 = - 1 then int i else firstNonSlashEnd st2) \<and>
            end' (scan_loop path suffix i st2) =
              (if take (k - 1) (drop (i - (k - 1)) path) = take (k - 1) suffix
               then int (i - (k - 1))
               else if firstNonSlashEnd st2 = - 1 then int i else firstNonSlashEnd st2)"
        using rest Suc.prems k2 by (intro Suc.IH) (auto simp: st2_def st1)
      then have IH: "start (scan_loop path suffix i st2) = start st \<and>
            firstNonSlashEnd (scan_loop path suffix i st2) = F \<and>
            end' (scan_loop path suffix i st2) =
              (if take (k - 1) (drop (Suc i - k) path) = take (k - 1) suffix
               then int (Suc i - k) else F)"
        by (simp only: idx st2 if_False)
      have "start (scan_loop path suffix (Suc i) st) = start st \<and>
            firstNonSlashEnd (scan_loop path suffix (Suc i) st) = F \<and>
            end' (scan_loop path suffix (Suc i) st) =
              (if take k (drop (Suc i - k) path) = take k suffix then int (Suc i - k) else F)"
        using step IH True cmp
        by simp
      then show ?thesis
        by (simp add: F_def)
    qed
  qed
qed

lemma basename_slash_free:
  assumes "CHR ''/'' \<notin> set path"
  shows "basename path suffix =
         (if suffix \<noteq> [] \<and> length suffix \<le> length path \<and>
             drop (length path - length suffix) path = suffix
          then take (length path - length suffix) path else path)"
proof -
  have slash: "\<forall>j<length path. path ! j \<noteq> CHR ''/''"
    using assms by (metis nth_mem)
  let ?init = "\<lparr>start = 0, end' = - 1, matchedSlash = True,
               extIdx = int (length suffix) - 1, firstNonSlashEnd = - 1\<rparr>"
  show ?thesis
  proof (cases "0 < length suffix \<and> length suffix \<le> length path")
    case False
    show ?thesis
    proof (cases "path = []")
      case True
      then show ?thesis by (simp add: basename_def)
    next
      case nonempty: False
      then have "plain_loop path (length path) ?init =
            ?init\<lparr>matchedSlash := False, end' := int (length path)\<rparr>"
        using slash by (intro plain_loop_first) auto
      then show ?thesis
        using False by (auto simp: basename_def slice_def)
    qed
  next
    case True
    show ?thesis
    proof (cases "suffix = path")
      case same: True
      then show ?thesis
        using True by (simp add: basename_def)
    next
      case differ: False
      let ?final = "scan_loop path suffix (length path) ?init"
      let ?d = "length path - length suffix"
      have M: "start ?final = 0 \<and> firstNonSlashEnd ?final = int (length path) \<and>
               end' ?final = (if drop ?d path = suffix then int ?d else int (length path))"
        using scan_loop_match [of "length path" path "length suffix" suffix ?init] slash True
        by simp
      have B: "basename path suffix =
               slice path (start ?final)
                 (if int (start ?final) = end' ?final then firstNonSlashEnd ?final
                  else if end' ?final = - 1 then int (length path) else end' ?final)"
        using True differ unfolding basename_def Let_def by simp
      show ?thesis
      proof (cases "drop ?d path = suffix")
        case match: True
        then have "?d \<noteq> 0"
          using differ by auto
        moreover have "nat (int (length path) - int (length suffix)) = ?d"
          by arith
        ultimately have "basename path suffix = take ?d path"
          unfolding B using M match by (simp add: slice_def)
        then show ?thesis
          using True match by simp
      next
        case mismatch: False
        have "length path \<noteq> 0"
          using True by auto
        then have "basename path suffix = path"
          unfolding B using M mismatch by (simp add: slice_def)
        then show ?thesis
          using mismatch by simp
      qed
    qed
  qed
qed

lemma basename_mainnet_json: "basename ''mainnet.json'' ''.json'' = ''mainnet''"
  by (simp add: basename_slash_free)
lemma basename_mainnet_txt: "basename ''mainnet.txt'' ''.json'' = ''mainnet.txt''"
  by (simp add: basename_slash_free)
lemma spec_network_id_mainnet_txt: "spec_network_id ''mainnet.txt'' = ''mainnet''"
  by (simp add: spec_network_id_def basename_slash_free)


lemma basename_json_stem:
  assumes "CHR ''/'' \<notin> set fileName"
  shows "fileName = stem @ ''.json'' \<Longrightarrow> basename fileName ''.json'' = stem"
    and "\<not> (\<exists>stem. fileName = stem @ ''.json'') \<Longrightarrow> basename fileName ''.json'' = fileName"
proof -
  show "basename fileName ''.json'' = stem" if "fileName = stem @ ''.json''"
    using assms that by (simp add: basename_slash_free)
  show "basename fileName ''.json'' = fileName" if N: "\<not> (\<exists>stem. fileName = stem @ ''.json'')"
  proof -
    have "drop (length fileName - length ''.json'') fileName \<noteq> ''.json''"
    proof
      assume "drop (length fileName - length ''.json'') fileName = ''.json''"
      then have "fileName = take (length fileName - length ''.json'') fileName @ ''.json''"
        by (metis append_take_drop_id)
      with N show False by blast
    qed
    then show ?thesis
      using assms by (simp add: basename_slash_free)
  qed
qed

text \<open>
  Claim C8, as the code has it. For a file name without a slash, as the entries of a
  directory are, the network identifier is \<open>path.basename(fileName, ".json")\<close>: the
  name without a trailing \<open>.json\<close>, and the whole name when it does not end in
  \<open>.json\<close> (so \<open>mainnet.json\<close> gives \<open>mainnet\<close>, and any other extension
  stays). The tests of \<open>includeNetworks\<close> and \<open>excludeNetworks\<close> are membership
  tests of that identifier.
\<close>

theorem network_name_strips_json:
  assumes "CHR ''/'' \<notin> set fileName"
  shows "(\<forall>stem. fileName = stem @ ''.json'' \<longrightarrow> basename fileName ''.json'' = stem) \<and>
         (\<not> (\<exists>stem. fileName = stem @ ''.json'') \<longrightarrow> basename fileName ''.json'' = fileName) \<and>
         shouldIncludeFile fileName config =
           (\<not> (\<exists>ns. includeNetworks config = Some ns \<and> ns \<noteq> [] \<and>
                    basename fileName ''.json'' \<notin> set ns) \<and>
            \<not> (\<exists>ns. excludeNetworks config = Some ns \<and> ns \<noteq> [] \<and>
                    basename fileName ''.json'' \<in> set ns))"
proof (intro conjI)
  show "shouldIncludeFile fileName config =
           (\<not> (\<exists>ns. includeNetworks config = Some ns \<and> ns \<noteq> [] \<and>
                    basename fileName ''.json'' \<notin> set ns) \<and>
            \<not> (\<exists>ns. excludeNetworks config = Some ns \<and> ns \<noteq> [] \<and>
                    basename fileName ''.json'' \<in> set ns))"
    by (auto simp: shouldIncludeFile_def Let_def split: option.splits)
qed (use basename_json_stem [OF assms] in blast)+

theorem network_name_strips_json_witness:
  "basename ''mainnet.json'' ''.json'' = ''mainnet'' \<and>
   basename ''mainnet.txt'' ''.json'' = ''mainnet.txt'' \<and>
   shouldIncludeFile ''mainnet.json'' (cfg_default\<lparr>includeNetworks := Some [''mainnet'']\<rparr>) \<and>
   \<not> shouldIncludeFile ''mainnet.json'' (cfg_default\<lparr>excludeNetworks := Some [''mainnet'']\<rparr>)"
proof -
  have S: "CHR ''/'' \<notin> set ''mainnet.json''" "CHR ''/'' \<notin> set ''mainnet.txt''"
    by simp_all
  have J: "''mainnet.json'' = ''mainnet'' @ ''.json''"
    by simp
  have T: "\<not> (\<exists>stem. ''mainnet.txt'' = stem @ ''.json'')"
  proof
    assume "\<exists>stem. ''mainnet.txt'' = stem @ ''.json''"
    then obtain stem where "''mainnet.txt'' = stem @ ''.json''" ..
    then have "last ''mainnet.txt'' = last (stem @ ''.json'')"
      by (rule arg_cong)
    then show False
      by simp
  qed
  note inc = network_name_strips_json
    [OF S(1), of "cfg_default\<lparr>includeNetworks := Some [''mainnet'']\<rparr>"]
  note exc = network_name_strips_json
    [OF S(1), of "cfg_default\<lparr>excludeNetworks := Some [''mainnet'']\<rparr>"]
  note plain = network_name_strips_json [OF S(2), of cfg_default]
  have A: "basename ''mainnet.json'' ''.json'' = ''mainnet''"
    using inc [THEN conjunct1] J by blast
  have B: "basename ''mainnet.txt'' ''.json'' = ''mainnet.txt''"
    using plain [THEN conjunct2, THEN conjunct1] T by blast
  have C: "shouldIncludeFile ''mainnet.json'' (cfg_default\<lparr>includeNetworks := Some [''mainnet'']\<rparr>)"
    unfolding inc [THEN conjunct2, THEN conjunct2] A by (simp add: cfg_default_def)
  have D: "\<not> shouldIncludeFile ''mainnet.json'' (cfg_default\<lparr>excludeNetworks := Some [''mainnet'']\<rparr>)"
    unfolding exc [THEN conjunct2, THEN conjunct2] A by (simp add: cfg_default_def)
  show ?thesis
    using A B C D by blast
qed


text \<open>
  The claim as the specification states it fails: for the file \<open>mainnet.txt\<close> the
  name without its extension is \<open>mainnet\<close>, but the code takes \<open>mainnet.txt\<close>
  as the identifier, so with \<open>includeNetworks = [mainnet]\<close> the file is left out.
\<close>

theorem network_name_counterexample:
  "spec_network_id ''mainnet.txt'' = ''mainnet'' \<and>
   basename ''mainnet.txt'' ''.json'' = ''mainnet.txt'' \<and>
   spec_shouldIncludeFile ''mainnet.txt'' (cfg_default\<lparr>includeNetworks := Some [''mainnet'']\<rparr>) \<and>
   \<not> shouldIncludeFile ''mainnet.txt'' (cfg_default\<lparr>includeNetworks := Some [''mainnet'']\<rparr>)"
  by (simp add: spec_shouldIncludeFile_def shouldIncludeFile_def basename_mainnet_txt spec_network_id_mainnet_txt cfg_default_def)

section \<open>Properties of the merger\<close>

subsection \<open>Objects\<close>

lemma obj_get_replace:
  "obj_get (obj_replace obj k v) k' = (if k' = k \<and> obj_get obj k \<noteq> None then Some v else obj_get obj k')"
  by (induction obj) (auto simp: obj_get_def)

lemma obj_get_insert_index:
  "obj_get obj k = None \<Longrightarrow>
   obj_get (obj_insert_index obj k v) k' = (if k' = k then Some v else obj_get obj k')"
  by (induction obj) (auto simp: obj_get_def split: if_splits)

lemma obj_get_append:
  "obj_get obj k = None \<Longrightarrow>
   obj_get (obj @ [(k, v)]) k' = (if k' = k then Some v else obj_get obj k')"
  by (induction obj) (auto simp: obj_get_def)

lemma obj_get_set: "obj_get (obj_set obj k v) k' = (if k' = k then Some v else obj_get obj k')"
  by (auto simp: obj_set_def obj_get_replace obj_get_insert_index obj_get_append)

lemma keys_replace: "map fst (obj_replace obj k v) = map fst obj"
  by (induction obj) auto

lemma set_keys_insert_index: "set (map fst (obj_insert_index obj k v)) = insert k (set (map fst obj))"
  by (induction obj k v rule: obj_insert_index.induct) (simp_all add: insert_commute)

lemma distinct_insert_index:
  "k \<notin> set (map fst obj) \<Longrightarrow> distinct (map fst obj) \<Longrightarrow> distinct (map fst (obj_insert_index obj k v))"
proof (induction obj)
  case Nil
  then show ?case by simp
next
  case (Cons p obj)
  have "fst p \<notin> set (map fst (obj_insert_index obj k v))"
    using Cons.prems by (simp only: set_keys_insert_index) auto
  with Cons show ?case
    by (cases p) auto
qed

lemma obj_get_None_iff: "obj_get obj k = None \<longleftrightarrow> k \<notin> set (map fst obj)"
  by (simp add: obj_get_def map_of_eq_None_iff)

lemma distinct_obj_set: "distinct (map fst obj) \<Longrightarrow> distinct (map fst (obj_set obj k v))"
  by (auto simp: obj_set_def keys_replace distinct_insert_index obj_get_None_iff)

lemma obj_set_not_Nil: "obj_set obj k v \<noteq> []"
  by (cases obj) (auto simp: obj_set_def obj_get_def split: if_splits)

lemma keys_obj_set_plain:
  "\<not> is_array_index k \<Longrightarrow>
   Object_keys (obj_set obj k v) =
     (if k \<in> set (Object_keys obj) then Object_keys obj else Object_keys obj @ [k])"
  by (auto simp: obj_set_def Object_keys_def keys_replace obj_get_None_iff)

lemma events_of_snoc:
  "events_of k (evs @ [(key, ck, ce)]) = events_of k evs @ (if key = k then [(ck, ce)] else [])"
  by (simp add: events_of_def)

lemma last_address_snoc:
  "last_address (xs @ [(ck, ce)]) chain =
     (if chain = ck then Some (ContractExport.address ce) else last_address xs chain)"
  by (simp add: last_address_def)

lemma obj_get_Nil: "obj_get [] k = None"
  by (simp add: obj_get_def)

lemma last_address_Nil: "last_address [] chain = None"
  by (simp add: last_address_def)


lemma entry_events_single:
  "entry_events config cid [entry] =
     (if shouldInclude (fst entry) config
      then [(transformed config (fst entry), ToString cid, snd entry)] else [])"
  by (simp add: entry_events_def)

lemma entry_events_Cons:
  "entry_events config cid (entry # entries) =
     entry_events config cid [entry] @ entry_events config cid entries"
  by (simp add: entry_events_def)

lemma merge_contract_skip:
  "\<not> shouldInclude (fst entry) config \<Longrightarrow> merge_contract config cid acc entry = Inr acc"
  by (simp add: merge_contract_def Let_def)

lemma merge_contract_new:
  assumes "shouldInclude (fst entry) config"
    and "obj_get acc (transformed config (fst entry)) = None"
    and "merge_contract config cid acc entry = Inr acc'"
  shows "acc' = obj_set acc (transformed config (fst entry))
           \<lparr>name = transformed config (fst entry), abi = ContractExport.abi (snd entry),
              address = ByChain (obj_set [] (ToString cid) (ContractExport.address (snd entry)))\<rparr>"
  using assms by (auto simp: merge_contract_def Let_def transformed_def split: if_splits)

lemma merge_contract_old:
  assumes "shouldInclude (fst entry) config"
    and "obj_get acc (transformed config (fst entry)) = Some c"
    and "address c = ByChain m"
  shows "merge_contract config cid acc entry =
           Inr (obj_set acc (transformed config (fst entry))
                  (c\<lparr>address := ByChain (obj_set m (ToString cid) (ContractExport.address (snd entry)))\<rparr>))"
  using assms by (simp add: merge_contract_def Let_def transformed_def)

lemma represents_at:
  "represents acc evs \<Longrightarrow>
   (case obj_get acc k of
      None \<Rightarrow> events_of k evs = []
    | Some c \<Rightarrow>
        events_of k evs \<noteq> [] \<and> name c = k \<and>
        abi c = ContractExport.abi (snd (hd (events_of k evs))) \<and>
        (\<exists>m. address c = ByChain m \<and> m \<noteq> [] \<and>
             (\<forall>chain. obj_get m chain = last_address (events_of k evs) chain)))"
  by (simp add: represents_def)

lemma represents_None: "represents acc evs \<Longrightarrow> obj_get acc k = None \<Longrightarrow> events_of k evs = []"
  using represents_at [of acc evs k] by simp

lemma represents_Some:
  "represents acc evs \<Longrightarrow> obj_get acc k = Some c \<Longrightarrow>
   events_of k evs \<noteq> [] \<and> name c = k \<and>
   abi c = ContractExport.abi (snd (hd (events_of k evs))) \<and>
   (\<exists>m. address c = ByChain m \<and> m \<noteq> [] \<and>
        (\<forall>chain. obj_get m chain = last_address (events_of k evs) chain))"
  using represents_at [of acc evs k] by simp

lemma represents_distinct: "represents acc evs \<Longrightarrow> distinct (map fst acc)"
  by (simp add: represents_def)

lemma represents_update:
  assumes R: "represents acc evs"
    and K: "events_of key evs = [] \<or> abi c' = ContractExport.abi (snd (hd (events_of key evs)))"
    and N: "name c' = key"
    and B: "events_of key evs = [] \<longrightarrow> abi c' = ContractExport.abi ce"
    and A: "address c' = ByChain m'" "m' \<noteq> []"
    and L: "\<And>chain. obj_get m' chain = last_address (events_of key evs @ [(ck, ce)]) chain"
  shows "represents (obj_set acc key c') (evs @ [(key, ck, ce)])"
  unfolding represents_def
proof (intro conjI allI)
  show "distinct (map fst (obj_set acc key c'))"
    using R by (simp add: represents_distinct distinct_obj_set)
next
  fix k
  show "case obj_get (obj_set acc key c') k of
          None \<Rightarrow> events_of k (evs @ [(key, ck, ce)]) = []
        | Some c \<Rightarrow>
            events_of k (evs @ [(key, ck, ce)]) \<noteq> [] \<and> name c = k \<and>
            abi c = ContractExport.abi (snd (hd (events_of k (evs @ [(key, ck, ce)])))) \<and>
            (\<exists>m. address c = ByChain m \<and> m \<noteq> [] \<and>
                 (\<forall>chain. obj_get m chain =
                    last_address (events_of k (evs @ [(key, ck, ce)])) chain))"
  proof (cases "k = key")
    case True
    then show ?thesis
      using K N B A L
      by (cases "events_of key evs = []") (auto simp: obj_get_set events_of_snoc)
  next
    case False
    then show ?thesis
      using represents_at [OF R, of k]
      by (auto simp: obj_get_set events_of_snoc split: option.splits)
  qed
qed

lemma represents_new:
  assumes R: "represents acc evs" and N: "obj_get acc key = None"
  shows "represents
           (obj_set acc key \<lparr>name = key, abi = ContractExport.abi ce,
                               address = ByChain (obj_set [] ck (ContractExport.address ce))\<rparr>)
           (evs @ [(key, ck, ce)])"
proof (rule represents_update [OF R])
  have E: "events_of key evs = []"
    using R N by (rule represents_None)
  show "obj_get (obj_set [] ck (ContractExport.address ce)) chain =
        last_address (events_of key evs @ [(ck, ce)]) chain" for chain
    by (simp add: E last_address_def obj_get_set obj_get_Nil)
qed (use represents_None [OF R N] in \<open>simp_all add: obj_set_not_Nil\<close>)

lemma represents_old:
  assumes R: "represents acc evs" and S: "obj_get acc key = Some c" and A: "address c = ByChain m"
  shows "represents
           (obj_set acc key (c\<lparr>address := ByChain (obj_set m ck (ContractExport.address ce))\<rparr>))
           (evs @ [(key, ck, ce)])"
proof (rule represents_update [OF R])
  have C: "events_of key evs \<noteq> [] \<and> name c = key \<and>
           abi c = ContractExport.abi (snd (hd (events_of key evs))) \<and>
           (\<forall>chain. obj_get m chain = last_address (events_of key evs) chain)"
    using represents_Some [OF R S] A by auto
  show "obj_get (obj_set m ck (ContractExport.address ce)) chain =
        last_address (events_of key evs @ [(ck, ce)]) chain" for chain
    using C by (simp add: last_address_snoc obj_get_set)
  show "events_of key evs = [] \<or>
        abi (c\<lparr>address := ByChain (obj_set m ck (ContractExport.address ce))\<rparr>) =
          ContractExport.abi (snd (hd (events_of key evs)))"
    using C by simp
  show "name (c\<lparr>address := ByChain (obj_set m ck (ContractExport.address ce))\<rparr>) = key"
    using C by simp
  show "events_of key evs = [] \<longrightarrow>
        abi (c\<lparr>address := ByChain (obj_set m ck (ContractExport.address ce))\<rparr>) =
          ContractExport.abi ce"
    using C by simp
qed (simp_all add: obj_set_not_Nil)

lemma merge_contract_represents:
  assumes R: "represents acc evs" and M: "merge_contract config cid acc entry = Inr acc'"
  shows "represents acc' (evs @ entry_events config cid [entry])"
proof (cases "shouldInclude (fst entry) config")
  case False
  then show ?thesis
    using R M by (simp add: merge_contract_skip entry_events_single)
next
  case True
  show ?thesis
  proof (cases "obj_get acc (transformed config (fst entry))")
    case None
    then show ?thesis
      using R True merge_contract_new [OF True None M]
      by (simp add: entry_events_single represents_new)
  next
    case (Some c)
    then obtain m where A: "address c = ByChain m"
      using represents_Some [OF R, of "transformed config (fst entry)" c] by auto
    show ?thesis
      using R True M Some A
      by (auto simp: merge_contract_old entry_events_single represents_old)
  qed
qed

lemma merge_contracts_represents:
  "represents acc evs \<Longrightarrow> merge_contracts config cid acc entries = Inr acc' \<Longrightarrow>
   represents acc' (evs @ entry_events config cid entries)"
proof (induction entries arbitrary: acc evs)
  case Nil
  then show ?case by (simp add: entry_events_def)
next
  case (Cons entry entries)
  from Cons.prems(2) obtain acc1 where
    M: "merge_contract config cid acc entry = Inr acc1" and
    Ms: "merge_contracts config cid acc1 entries = Inr acc'"
    by (auto split: sum.splits)
  have "represents acc1 (evs @ entry_events config cid [entry])"
    using Cons.prems(1) M by (rule merge_contract_represents)
  from Cons.IH [OF this Ms] show ?case
    by (simp add: entry_events_Cons [of config cid entry entries])
qed

lemma merge_file_represents:
  assumes "represents acc evs" and "merge_file config dir acc file = Inr acc'"
  shows "represents acc' (evs @ file_events config dir file)"
  using assms
  by (auto simp: merge_file_def file_events_def Let_def merge_contracts_represents
      split: outcome.splits)

lemma reduce_files_represents:
  "represents acc evs \<Longrightarrow> reduce_files config dir acc files = Inr acc' \<Longrightarrow>
   represents acc' (evs @ events config dir files)"
proof (induction files arbitrary: acc evs)
  case Nil
  then show ?case by (simp add: events_def)
next
  case (Cons f fs)
  from Cons.prems(2) obtain acc1 where
    M: "merge_file config dir acc f = Inr acc1" and
    Ms: "reduce_files config dir acc1 fs = Inr acc'"
    by (auto split: sum.splits)
  have "represents acc1 (evs @ file_events config dir f)"
    using Cons.prems(1) M by (rule merge_file_represents)
  from Cons.IH [OF this Ms] show ?case
    by (simp add: events_def)
qed

lemma represents_empty: "represents [] []"
  by (simp add: represents_def obj_get_def events_of_def)


subsection \<open>Set spread\<close>

lemma foldl_ins_set:
  "set (foldl Set_add seen xs) = set seen \<union> set xs"
  by (induction xs arbitrary: seen) (auto simp: Set_add_def)

lemma foldl_ins_distinct:
  "distinct seen \<Longrightarrow>
   distinct (foldl Set_add seen xs)"
  by (induction xs arbitrary: seen) (auto simp: Set_add_def)

lemma set_Set_spread: "set (Set_spread xs) = set xs"
  by (simp add: Set_spread_def foldl_ins_set)

lemma distinct_Set_spread: "distinct (Set_spread xs)"
  by (simp add: Set_spread_def foldl_ins_distinct)

lemma length_Set_spread: "length (Set_spread xs) = card (set xs)"
  using distinct_card [OF distinct_Set_spread, of xs] by (simp add: set_Set_spread)

lemma Set_spread_single: "set xs = {a} \<Longrightarrow> Set_spread xs = [a]"
proof -
  assume A: "set xs = {a}"
  then have "length (Set_spread xs) = 1"
    by (simp add: length_Set_spread)
  then obtain b where B: "Set_spread xs = [b]"
    by (cases "Set_spread xs") auto
  then have "set (Set_spread xs) = {b}" by simp
  with A have "b = a" by (simp add: set_Set_spread)
  with B show ?thesis by simp
qed

subsection \<open>Simplify\<close>

lemma simplify_single:
  assumes "address c = ByChain m" and "snd ` set m = {a}"
  shows "simplify c = c\<lparr>address := Scalar a\<rparr>"
proof -
  have "Set_spread (map snd m) = [a]"
    using assms(2) by (intro Set_spread_single) simp
  then show ?thesis
    using assms(1) by (simp add: simplify_def address_values_def Object_values_def)
qed

lemma simplify_many:
  assumes "address c = ByChain m" and "card (snd ` set m) \<noteq> 1"
  shows "simplify c = c"
proof -
  have "length (Set_spread (map snd m)) \<noteq> 1"
    using assms(2) by (simp add: length_Set_spread)
  then show ?thesis
    using assms(1) by (simp add: simplify_def address_values_def Object_values_def)
qed

lemma simplify_frame: "simplify c = c\<lparr>address := address (simplify c)\<rparr>"
  by (simp add: simplify_def Let_def)

lemma name_simplify: "name (simplify c) = name c"
  by (simp add: simplify_def Let_def)

lemma abi_simplify: "abi (simplify c) = abi c"
  by (simp add: simplify_def Let_def)

subsection \<open>Values of the accumulator\<close>

lemma represents_member:
  assumes "represents acc evs" and "(k, c) \<in> set acc"
  shows "obj_get acc k = Some c"
  using assms by (simp add: obj_get_def represents_distinct)

lemma represents_names:
  assumes "represents acc evs"
  shows "map name (Object_values acc) = Object_keys acc"
proof -
  have "name (snd p) = fst p" if "p \<in> set acc" for p
  proof -
    have "obj_get acc (fst p) = Some (snd p)"
      using assms that by (intro represents_member) simp_all
    then show ?thesis
      using represents_Some [OF assms] by blast
  qed
  then show ?thesis
    by (simp add: Object_values_def Object_keys_def)
qed

lemma reduce_files_result:
  "reduce_files config dir [] files = Inr acc \<Longrightarrow> represents acc (events config dir files)"
  using reduce_files_represents [OF represents_empty, of config dir files acc] by simp

lemma plugin_contracts_Inr:
  assumes "plugin_contracts config dir = Inr registry"
  obtains names acc where "listing dir = Inr names"
    and "reduce_files config dir [] (filter (\<lambda>file. shouldIncludeFile file config) names) = Inr acc"
    and "registry = map simplify (Object_values acc)"
  using assms by (auto simp: plugin_contracts_def Let_def split: sum.splits)


subsection \<open>Order of the keys\<close>

lemma merge_contract_Inr:
  "shouldInclude (fst entry) config \<Longrightarrow> merge_contract config cid acc entry = Inr acc' \<Longrightarrow>
   \<exists>c'. acc' = obj_set acc (transformed config (fst entry)) c'"
  by (auto simp: merge_contract_def Let_def transformed_def
      split: if_splits address_repr.splits option.splits)

lemma keys_obj_insert_index: "map fst (obj_insert_index obj k v) = key_insert_index (map fst obj) k"
  by (induction obj k v rule: obj_insert_index.induct) simp_all

lemma keys_obj_set: "Object_keys (obj_set obj k v) = key_set (Object_keys obj) k"
  by (simp add: obj_set_def key_set_def Object_keys_def keys_replace keys_obj_insert_index
      obj_get_None_iff)

lemma index_key_inject:
  "is_array_index a \<Longrightarrow> is_array_index b \<Longrightarrow> decimal_value a = decimal_value b \<Longrightarrow> a = b"
  by (metis is_array_index_def)

lemma set_key_insert_index: "set (key_insert_index ks k) = insert k (set ks)"
  by (induction ks) auto

lemma set_key_set: "set (key_set ks k) = insert k (set ks)"
  by (auto simp: key_set_def set_key_insert_index)

lemma key_order_no_index: "\<forall>k \<in> set ks. \<not> is_array_index k \<Longrightarrow> key_order ks"
  by (induction ks) auto

lemma key_order_insert_index:
  "key_order ks \<Longrightarrow> is_array_index k \<Longrightarrow> k \<notin> set ks \<Longrightarrow> key_order (key_insert_index ks k)"
proof (induction ks)
  case Nil
  then show ?case by simp
next
  case (Cons k' ks)
  show ?case
  proof (cases "is_array_index k' \<and> decimal_value k' < decimal_value k")
    case True
    then show ?thesis
      using Cons by (auto simp: set_key_insert_index)
  next
    case False
    show ?thesis
    proof (cases "is_array_index k'")
      case idx: True
      then have "decimal_value k \<le> decimal_value k'"
        using False by simp
      moreover have "decimal_value k \<noteq> decimal_value k'"
        using index_key_inject [OF Cons.prems(2) idx] Cons.prems(3) by auto
      ultimately have lt: "decimal_value k < decimal_value k'"
        by simp
      then show ?thesis
        using Cons.prems idx False by (simp add: Cons.prems) (use lt in force)
    next
      case nonidx: False
      then show ?thesis
        using Cons.prems by simp
    qed
  qed
qed

lemma key_order_append: "key_order ks \<Longrightarrow> \<not> is_array_index k \<Longrightarrow> key_order (ks @ [k])"
  by (induction ks) auto

lemma key_order_key_set: "key_order ks \<Longrightarrow> key_order (key_set ks k)"
  by (simp add: key_set_def key_order_insert_index key_order_append)

lemma key_order_foldl: "key_order ks \<Longrightarrow> key_order (foldl key_set ks xs)"
  by (induction xs arbitrary: ks) (simp_all add: key_order_key_set)

lemma key_order_split:
  "key_order ks \<Longrightarrow>
   ks = filter is_array_index ks @ filter (\<lambda>k. \<not> is_array_index k) ks \<and>
   sorted_wrt (\<lambda>a b. decimal_value a < decimal_value b) (filter is_array_index ks)"
proof (induction ks)
  case Nil
  then show ?case by simp
next
  case (Cons k ks)
  show ?case
  proof (cases "is_array_index k")
    case True
    then show ?thesis
      using Cons by auto
  next
    case False
    then have "filter is_array_index ks = []" "filter (\<lambda>k. \<not> is_array_index k) ks = ks"
      using Cons.prems by (auto simp: filter_empty_conv filter_id_conv)
    then show ?thesis
      using False by simp
  qed
qed

lemma nonindex_key_insert_index:
  "is_array_index k \<Longrightarrow>
   filter (\<lambda>k. \<not> is_array_index k) (key_insert_index ks k) = filter (\<lambda>k. \<not> is_array_index k) ks"
  by (induction ks) auto

lemma nonindex_key_set:
  "filter (\<lambda>k. \<not> is_array_index k) (key_set ks k) =
     (if is_array_index k then filter (\<lambda>k. \<not> is_array_index k) ks
      else Set_add (filter (\<lambda>k. \<not> is_array_index k) ks) k)"
  by (auto simp: key_set_def Set_add_def nonindex_key_insert_index)

lemma nonindex_foldl_key_set:
  "filter (\<lambda>k. \<not> is_array_index k) (foldl key_set ks xs) =
     foldl Set_add (filter (\<lambda>k. \<not> is_array_index k) ks) (filter (\<lambda>k. \<not> is_array_index k) xs)"
  by (induction xs arbitrary: ks) (simp_all add: nonindex_key_set)

lemma filter_foldl_Set_add:
  "filter P (foldl Set_add seen xs) = foldl Set_add (filter P seen) (filter P xs)"
  by (induction xs arbitrary: seen) (auto simp: Set_add_def)

lemma filter_Set_spread: "filter P (Set_spread xs) = Set_spread (filter P xs)"
  by (simp add: Set_spread_def filter_foldl_Set_add)

lemma set_foldl_key_set: "set (foldl key_set ks xs) = set ks \<union> set xs"
  by (induction xs arbitrary: ks) (auto simp: set_key_set)

lemma distinct_key_insert_index:
  "distinct ks \<Longrightarrow> k \<notin> set ks \<Longrightarrow> distinct (key_insert_index ks k)"
  by (induction ks) (auto simp: set_key_insert_index)

lemma distinct_key_set: "distinct ks \<Longrightarrow> distinct (key_set ks k)"
  by (simp add: key_set_def distinct_key_insert_index)

lemma distinct_foldl_key_set: "distinct ks \<Longrightarrow> distinct (foldl key_set ks xs)"
  by (induction xs arbitrary: ks) (simp_all add: distinct_key_set)


lemma merge_contract_key_set:
  assumes "merge_contract config cid acc entry = Inr acc'"
  shows "Object_keys acc' =
         foldl key_set (Object_keys acc) (map fst (entry_events config cid [entry]))"
proof (cases "shouldInclude (fst entry) config")
  case False
  then show ?thesis
    using assms by (simp add: merge_contract_skip entry_events_single)
next
  case True
  then obtain c' where "acc' = obj_set acc (transformed config (fst entry)) c'"
    using merge_contract_Inr assms by blast
  then show ?thesis
    using True by (simp add: entry_events_single keys_obj_set)
qed

lemma merge_contracts_key_set:
  "merge_contracts config cid acc entries = Inr acc' \<Longrightarrow>
   Object_keys acc' = foldl key_set (Object_keys acc) (map fst (entry_events config cid entries))"
proof (induction entries arbitrary: acc)
  case Nil
  then show ?case by (simp add: entry_events_def)
next
  case (Cons entry entries)
  from Cons.prems obtain acc1 where
    M: "merge_contract config cid acc entry = Inr acc1" and
    Ms: "merge_contracts config cid acc1 entries = Inr acc'"
    by (auto split: sum.splits)
  show ?case
    using merge_contract_key_set [OF M] Cons.IH [OF Ms]
    by (simp add: entry_events_Cons [of config cid entry entries])
qed

lemma merge_file_key_set:
  assumes "merge_file config dir acc f = Inr acc'"
  shows "Object_keys acc' = foldl key_set (Object_keys acc) (map fst (file_events config dir f))"
proof (cases "document dir f")
  case (Parsed d)
  then show ?thesis
    using assms merge_contracts_key_set [of config "parseInt (chainId d)" acc "contracts d" acc']
    by (simp add: merge_file_def file_events_def)
qed (use assms in \<open>simp_all add: merge_file_def\<close>)

lemma reduce_files_key_set:
  "reduce_files config dir acc files = Inr acc' \<Longrightarrow>
   Object_keys acc' = foldl key_set (Object_keys acc) (map fst (events config dir files))"
proof (induction files arbitrary: acc)
  case Nil
  then show ?case by (simp add: events_def)
next
  case (Cons f fs)
  from Cons.prems obtain acc1 where
    M: "merge_file config dir acc f = Inr acc1" and
    Ms: "reduce_files config dir acc1 fs = Inr acc'"
    by (auto split: sum.splits)
  show ?case
    using merge_file_key_set [OF M] Cons.IH [OF Ms]
    by (simp add: events_def)
qed

subsection \<open>Failure\<close>






subsection \<open>Success of the fold\<close>






subsection \<open>Runs of the examples\<close>

lemma chain_keys:
  "ToString (parseInt ''5'') = ''5''" "ToString (parseInt ''7'') = ''7''"
  "ToString (parseInt ''abc'') = ''NaN''" "parseInt ''abc'' = NaN"
  by (simp_all add: ToString_def parseInt_def isWhiteSpace_def is_radix_digit_def digit_of_def
      radix_value_def Let_def decimal.simps digit_char_def)

lemma index_keys:
  "is_array_index ''5''" "is_array_index ''7''" "is_array_index ''1''"
  "\<not> is_array_index ''Foo''" "\<not> is_array_index ''Bar''" "\<not> is_array_index ''B''"
  "\<not> is_array_index ''NaN''"
  "decimal_value ''5'' = 5" "decimal_value ''7'' = 7"
  by (simp_all add: is_array_index_def is_digit_def decimal_value_def decimal.simps digit_char_def)

lemmas run_defs =
  plugin_contracts_def shouldIncludeFile_def cfg_default_def merge_file_def export_of_def
  record_of_def merge_contract_def shouldInclude_def obj_set_def obj_get_def
  Object_prototype_keys_def Object_values_def simplify_def address_values_def Set_spread_def
  Set_add_def Let_def chain_keys index_keys

lemma run_dup:
  "plugin_contracts cfg_default dir_dup =
     Inr [\<lparr>name = ''Foo'', abi = ''abiA'', address = Scalar ''0xBB''\<rparr>,
          \<lparr>name = ''Bar'', abi = ''abiBar'',
             address = ByChain [(''5'', ''0xCC''), (''7'', ''0xDD'')]\<rparr>]"
  by (simp add: run_defs dir_dup_def)

lemma fold_dup:
  "reduce_files cfg_default dir_dup [] [''a.json'', ''b.json'', ''c.json''] =
     Inr [(''Foo'', \<lparr>name = ''Foo'', abi = ''abiA'',
                      address = ByChain [(''5'', ''0xBB''), (''7'', ''0xBB'')]\<rparr>),
          (''Bar'', \<lparr>name = ''Bar'', abi = ''abiBar'',
                      address = ByChain [(''5'', ''0xCC''), (''7'', ''0xDD'')]\<rparr>)]"
  by (simp add: run_defs dir_dup_def)

lemma run_order:
  "plugin_contracts cfg_default dir_order =
     Inr [\<lparr>name = ''1'', abi = ''abi1'', address = Scalar ''0xBB''\<rparr>,
          \<lparr>name = ''B'', abi = ''abiB'', address = Scalar ''0xAA''\<rparr>]"
  by (simp add: run_defs dir_order_def)



lemma events_order:
  "first_encounter_order cfg_default dir_order [''a.json'', ''b.json''] = [''B'', ''1'']"
  by (simp add: first_encounter_order_def events_def file_events_def entry_events_def
      transformed_def dir_order_def run_defs)

lemma events_dup:
  "first_encounter_order cfg_default dir_dup [''a.json'', ''b.json'', ''c.json''] = [''Foo'', ''Bar'']"
  by (simp add: first_encounter_order_def events_def file_events_def entry_events_def
      transformed_def dir_dup_def run_defs)


lemma index_keys_mixed:
  "is_array_index ''9''" "is_array_index ''10''" "\<not> is_array_index ''A''"
  "decimal_value ''9'' = 9" "decimal_value ''10'' = 10"
  by (simp_all add: is_array_index_def is_digit_def decimal_value_def decimal.simps digit_char_def)

lemma run_mixed:
  "plugin_contracts cfg_default dir_mixed =
     Inr [\<lparr>name = ''9'', abi = ''abi9'', address = Scalar ''0xB1''\<rparr>,
          \<lparr>name = ''10'', abi = ''abi10'', address = Scalar ''0xA1''\<rparr>,
          \<lparr>name = ''B'', abi = ''abiB'', address = Scalar ''0xA2''\<rparr>,
          \<lparr>name = ''A'', abi = ''abiA'', address = Scalar ''0xB2''\<rparr>]"
  by (simp add: run_defs dir_mixed_def index_keys_mixed)

lemma events_mixed:
  "first_encounter_order cfg_default dir_mixed [''a.json'', ''b.json''] =
     [''10'', ''B'', ''9'', ''A'']"
  by (simp add: first_encounter_order_def events_def file_events_def entry_events_def
      transformed_def dir_mixed_def run_defs)

subsection \<open>Errors of the fold\<close>

lemma select_all_default:
  "filter (\<lambda>file. shouldIncludeFile file cfg_default) names = names"
  by (simp add: shouldIncludeFile_def cfg_default_def)

lemma merge_contract_error: "merge_contract config cid acc entry = Inl e \<Longrightarrow> e = TypeError"
  by (auto simp: merge_contract_def Let_def split: if_splits address_repr.splits)

lemma merge_contracts_error: "merge_contracts config cid acc entries = Inl e \<Longrightarrow> e = TypeError"
  by (induction entries arbitrary: acc) (auto split: sum.splits dest: merge_contract_error)

lemma merge_file_error:
  "merge_file config dir acc f = Inl e \<Longrightarrow>
   e = TypeError \<or> (\<exists>msg. document dir f = ReadThrows msg \<and> e = IOError msg) \<or>
   (\<exists>msg. document dir f = ParseThrows msg \<and> e = SyntaxError msg)"
  by (auto simp: merge_file_def Let_def split: outcome.splits dest: merge_contracts_error)

lemma reduce_files_error:
  "reduce_files config dir acc files = Inl e \<Longrightarrow>
   e = TypeError \<or>
   (\<exists>f msg. f \<in> set files \<and> document dir f = ReadThrows msg \<and> e = IOError msg) \<or>
   (\<exists>f msg. f \<in> set files \<and> document dir f = ParseThrows msg \<and> e = SyntaxError msg)"
proof (induction files arbitrary: acc)
  case Nil
  then show ?case by simp
next
  case (Cons g gs)
  show ?case
  proof (cases "merge_file config dir acc g")
    case (Inl e')
    then have "e' = e" using Cons.prems by simp
    then show ?thesis
      using merge_file_error [OF Inl] by auto
  next
    case (Inr acc1)
    then have "reduce_files config dir acc1 gs = Inl e"
      using Cons.prems by simp
    from Cons.IH [OF this] show ?thesis by auto
  qed
qed

section \<open>The claims about the merger\<close>

text \<open>
  Claim C3. After the fold, the registry is the list of the entries of the accumulator, each
  simplified on its own. Every entry of the accumulator holds an address object that is
  not empty; when all its chains have the same address, the entry's address becomes that
  one address, and when it has two or more distinct addresses the entry stays as it is.
\<close>

theorem simplify_after_fold:
  assumes "listing dir = Inr names"
    and "reduce_files config dir [] (filter (\<lambda>file. shouldIncludeFile file config) names) = Inr acc"
  shows "plugin_contracts config dir = Inr (map simplify (Object_values acc)) \<and>
         (\<forall>c \<in> set (Object_values acc).
            \<exists>m. address c = ByChain m \<and> m \<noteq> [] \<and>
                (\<forall>a. snd ` set m = {a} \<longrightarrow> simplify c = c\<lparr>address := Scalar a\<rparr>) \<and>
                (2 \<le> card (snd ` set m) \<longrightarrow> simplify c = c))"
proof (intro conjI ballI)
  show "plugin_contracts config dir = Inr (map simplify (Object_values acc))"
    using assms by (simp add: plugin_contracts_def)
next
  fix c
  assume "c \<in> set (Object_values acc)"
  then obtain k where K: "(k, c) \<in> set acc"
    by (auto simp: Object_values_def)
  have R: "represents acc (events config dir (filter (\<lambda>file. shouldIncludeFile file config) names))"
    using assms(2) by (rule reduce_files_result)
  have "obj_get acc k = Some c"
    using R K by (rule represents_member)
  then obtain m where M: "address c = ByChain m" "m \<noteq> []"
    using represents_Some [OF R] by blast
  have "simplify c = c\<lparr>address := Scalar a\<rparr>" if "snd ` set m = {a}" for a
    using M(1) that by (rule simplify_single)
  moreover have "simplify c = c" if "2 \<le> card (snd ` set m)"
    using M(1) that by (intro simplify_many) auto
  ultimately show "\<exists>m. address c = ByChain m \<and> m \<noteq> [] \<and>
      (\<forall>a. snd ` set m = {a} \<longrightarrow> simplify c = c\<lparr>address := Scalar a\<rparr>) \<and>
      (2 \<le> card (snd ` set m) \<longrightarrow> simplify c = c)"
    using M by blast
qed

theorem simplify_after_fold_witness:
  "listing dir_dup = Inr [''a.json'', ''b.json'', ''c.json''] \<and>
   plugin_contracts cfg_default dir_dup =
     Inr [simplify \<lparr>name = ''Foo'', abi = ''abiA'',
                     address = ByChain [(''5'', ''0xBB''), (''7'', ''0xBB'')]\<rparr>,
          simplify \<lparr>name = ''Bar'', abi = ''abiBar'',
                     address = ByChain [(''5'', ''0xCC''), (''7'', ''0xDD'')]\<rparr>] \<and>
   simplify \<lparr>name = ''Foo'', abi = ''abiA'',
              address = ByChain [(''5'', ''0xBB''), (''7'', ''0xBB'')]\<rparr> =
     \<lparr>name = ''Foo'', abi = ''abiA'', address = Scalar ''0xBB''\<rparr> \<and>
   simplify \<lparr>name = ''Bar'', abi = ''abiBar'',
              address = ByChain [(''5'', ''0xCC''), (''7'', ''0xDD'')]\<rparr> =
     \<lparr>name = ''Bar'', abi = ''abiBar'',
        address = ByChain [(''5'', ''0xCC''), (''7'', ''0xDD'')]\<rparr>"
proof -
  have L: "listing dir_dup = Inr [''a.json'', ''b.json'', ''c.json'']"
    by (simp add: dir_dup_def)
  have F: "reduce_files cfg_default dir_dup []
             (filter (\<lambda>file. shouldIncludeFile file cfg_default) [''a.json'', ''b.json'', ''c.json'']) =
           Inr [(''Foo'', \<lparr>name = ''Foo'', abi = ''abiA'',
                      address = ByChain [(''5'', ''0xBB''), (''7'', ''0xBB'')]\<rparr>),
                (''Bar'', \<lparr>name = ''Bar'', abi = ''abiBar'',
                      address = ByChain [(''5'', ''0xCC''), (''7'', ''0xDD'')]\<rparr>)]"
    by (simp only: select_all_default fold_dup)
  have "card {''0xCC'', ''0xDD''} = 2"
    by simp
  then show ?thesis
    using simplify_after_fold [OF L F] L
    by (simp add: Object_values_def)
qed


text \<open>
  Claim C10. The simplification changes the address field only: the registry is the list
  of the entries of the accumulator, in the same order and number, each with its address
  replaced and its name and ABI as they were.
\<close>

theorem simplify_changes_address_only:
  assumes "plugin_contracts config dir = Inr registry"
  shows "\<exists>names acc.
           listing dir = Inr names \<and>
           reduce_files config dir [] (filter (\<lambda>file. shouldIncludeFile file config) names) = Inr acc \<and>
           registry = map (\<lambda>c. c\<lparr>address := address (simplify c)\<rparr>) (Object_values acc) \<and>
           length registry = length (Object_values acc) \<and>
           map name registry = map name (Object_values acc) \<and>
           map abi registry = map abi (Object_values acc)"
proof -
  from assms obtain names acc where
    L: "listing dir = Inr names" and
    F: "reduce_files config dir [] (filter (\<lambda>file. shouldIncludeFile file config) names) = Inr acc" and
    G: "registry = map simplify (Object_values acc)"
    by (rule plugin_contracts_Inr)
  have "map simplify (Object_values acc) =
        map (\<lambda>c. c\<lparr>address := address (simplify c)\<rparr>) (Object_values acc)"
    using simplify_frame by (intro map_cong) auto
  then show ?thesis
    using L F G by (simp add: name_simplify abi_simplify comp_def)
qed

theorem simplify_changes_address_only_witness:
  "plugin_contracts cfg_default dir_dup =
     Inr [\<lparr>name = ''Foo'', abi = ''abiA'', address = Scalar ''0xBB''\<rparr>,
          \<lparr>name = ''Bar'', abi = ''abiBar'',
             address = ByChain [(''5'', ''0xCC''), (''7'', ''0xDD'')]\<rparr>] \<and>
   (\<exists>names acc.
      listing dir_dup = Inr names \<and>
      reduce_files cfg_default dir_dup []
        (filter (\<lambda>file. shouldIncludeFile file cfg_default) names) = Inr acc \<and>
      [\<lparr>name = ''Foo'', abi = ''abiA'', address = Scalar ''0xBB''\<rparr>,
       \<lparr>name = ''Bar'', abi = ''abiBar'',
          address = ByChain [(''5'', ''0xCC''), (''7'', ''0xDD'')]\<rparr>] =
        map (\<lambda>c. c\<lparr>address := address (simplify c)\<rparr>) (Object_values acc) \<and>
      length [\<lparr>name = ''Foo'', abi = ''abiA'', address = Scalar ''0xBB''\<rparr>,
              \<lparr>name = ''Bar'', abi = ''abiBar'',
                 address = ByChain [(''5'', ''0xCC''), (''7'', ''0xDD'')]\<rparr>] =
        length (Object_values acc) \<and>
      map name [\<lparr>name = ''Foo'', abi = ''abiA'', address = Scalar ''0xBB''\<rparr>,
                \<lparr>name = ''Bar'', abi = ''abiBar'',
                   address = ByChain [(''5'', ''0xCC''), (''7'', ''0xDD'')]\<rparr>] =
        map name (Object_values acc) \<and>
      map abi [\<lparr>name = ''Foo'', abi = ''abiA'', address = Scalar ''0xBB''\<rparr>,
               \<lparr>name = ''Bar'', abi = ''abiBar'',
                  address = ByChain [(''5'', ''0xCC''), (''7'', ''0xDD'')]\<rparr>] =
        map abi (Object_values acc))"
  by (rule conjI [OF run_dup simplify_changes_address_only [OF run_dup]])

text \<open>
  Claim C4. After a fold that returns, the entry of a key has the key as its name and the
  ABI of the first record met for the key, and its address object gives every chain the
  address of the last record met for the key and the chain: a later record overwrites the
  address of an earlier one for the same chain. Folding one more record for a key that
  the accumulator holds raises no error.
\<close>

theorem fold_last_address_first_abi:
  assumes "reduce_files config dir [] files = Inr acc" and "obj_get acc k = Some c"
  shows "events_of k (events config dir files) \<noteq> [] \<and>
         name c = k \<and>
         abi c = ContractExport.abi (snd (hd (events_of k (events config dir files)))) \<and>
         (\<exists>m. address c = ByChain m \<and>
              (\<forall>chain. obj_get m chain =
                 last_address (events_of k (events config dir files)) chain)) \<and>
         (\<forall>cid entry.
            shouldInclude (fst entry) config \<and> transformed config (fst entry) = k \<longrightarrow>
            (\<exists>acc'. merge_contract config cid acc entry = Inr acc'))"
proof -
  have R: "represents acc (events config dir files)"
    using assms(1) by (rule reduce_files_result)
  note S = represents_Some [OF R assms(2)]
  from S obtain m where M: "address c = ByChain m" by blast
  have "\<exists>acc'. merge_contract config cid acc entry = Inr acc'"
    if "shouldInclude (fst entry) config" "transformed config (fst entry) = k" for cid entry
    using merge_contract_old [of entry config acc c m cid] that assms(2) M by simp
  with S show ?thesis by blast
qed

theorem fold_last_address_first_abi_witness:
  "reduce_files cfg_default dir_dup [] [''a.json'', ''b.json'', ''c.json''] =
     Inr [(''Foo'', \<lparr>name = ''Foo'', abi = ''abiA'',
                      address = ByChain [(''5'', ''0xBB''), (''7'', ''0xBB'')]\<rparr>),
          (''Bar'', \<lparr>name = ''Bar'', abi = ''abiBar'',
                      address = ByChain [(''5'', ''0xCC''), (''7'', ''0xDD'')]\<rparr>)] \<and>
   events_of ''Foo'' (events cfg_default dir_dup [''a.json'', ''b.json'', ''c.json'']) =
     [(''5'', record_of ''0xAA'' ''abiA''), (''5'', record_of ''0xBB'' ''abiB''),
      (''7'', record_of ''0xBB'' ''abiC'')] \<and>
   last_address
     (events_of ''Foo'' (events cfg_default dir_dup [''a.json'', ''b.json'', ''c.json''])) ''5'' =
     Some ''0xBB''"
proof -
  have G: "obj_get [(''Foo'', \<lparr>name = ''Foo'', abi = ''abiA'',
                      address = ByChain [(''5'', ''0xBB''), (''7'', ''0xBB'')]\<rparr>),
          (''Bar'', \<lparr>name = ''Bar'', abi = ''abiBar'',
                      address = ByChain [(''5'', ''0xCC''), (''7'', ''0xDD'')]\<rparr>)] ''Foo'' =
        Some \<lparr>name = ''Foo'', abi = ''abiA'',
                      address = ByChain [(''5'', ''0xBB''), (''7'', ''0xBB'')]\<rparr>"
    by (simp add: obj_get_def)
  have E: "events_of ''Foo'' (events cfg_default dir_dup [''a.json'', ''b.json'', ''c.json'']) =
     [(''5'', record_of ''0xAA'' ''abiA''), (''5'', record_of ''0xBB'' ''abiB''),
      (''7'', record_of ''0xBB'' ''abiC'')]"
    by (simp add: events_of_def events_def file_events_def entry_events_def transformed_def
        dir_dup_def export_of_def shouldInclude_def cfg_default_def chain_keys)
  show ?thesis
    using fold_last_address_first_abi [OF fold_dup G] fold_dup E
    by (simp add: last_address_def record_of_def)
qed

text \<open>
  Claim C7, as the code has it. The names of the registry are the keys that the scan
  meets, each once. The names that are array indices come first, in ascending numeric
  order; the other names follow, in the order in which the scan meets each of them first.
  So when no name is an array index, the order of the registry is the order of first
  encounter.
\<close>

theorem registry_order:
  assumes "plugin_contracts config dir = Inr registry" and "listing dir = Inr names"
    and "N = map name registry"
    and "F = first_encounter_order config dir (filter (\<lambda>file. shouldIncludeFile file config) names)"
  shows "N = filter is_array_index N @ filter (\<lambda>k. \<not> is_array_index k) N \<and>
         sorted_wrt (\<lambda>a b. decimal_value a < decimal_value b) (filter is_array_index N) \<and>
         filter (\<lambda>k. \<not> is_array_index k) N = filter (\<lambda>k. \<not> is_array_index k) F \<and>
         set N = set F \<and> distinct N \<and>
         ((\<forall>k \<in> set F. \<not> is_array_index k) \<longrightarrow> N = F)"
proof -
  let ?files = "filter (\<lambda>file. shouldIncludeFile file config) names"
  let ?keys = "map fst (events config dir ?files)"
  from assms(1,2) obtain acc where
    A: "reduce_files config dir [] ?files = Inr acc" and
    G: "registry = map simplify (Object_values acc)"
    by (auto elim!: plugin_contracts_Inr)
  have R: "represents acc (events config dir ?files)"
    using A by (rule reduce_files_result)
  have N: "N = foldl key_set [] ?keys"
    using represents_names [OF R] G reduce_files_key_set [OF A] assms(3)
    by (simp add: name_simplify comp_def Object_keys_def)
  have F: "F = Set_spread ?keys"
    using assms(4) by (simp add: first_encounter_order_def)
  have "key_order N"
    unfolding N by (rule key_order_foldl) simp
  then have split: "N = filter is_array_index N @ filter (\<lambda>k. \<not> is_array_index k) N"
    and sorted: "sorted_wrt (\<lambda>a b. decimal_value a < decimal_value b) (filter is_array_index N)"
    using key_order_split by blast+
  have plain: "filter (\<lambda>k. \<not> is_array_index k) N = filter (\<lambda>k. \<not> is_array_index k) F"
    unfolding N F by (simp add: nonindex_foldl_key_set filter_foldl_Set_add Set_spread_def)
  have same: "set N = set F"
    unfolding N F by (simp add: set_foldl_key_set set_Set_spread)
  have dist: "distinct N"
    unfolding N by (rule distinct_foldl_key_set) simp
  have "N = F" if "\<forall>k \<in> set F. \<not> is_array_index k"
  proof -
    have "filter is_array_index N = []" "filter (\<lambda>k. \<not> is_array_index k) F = F"
      using that same by (auto simp: filter_empty_conv filter_id_conv)
    then show ?thesis
      using split plain by simp
  qed
  with split sorted plain same dist show ?thesis
    by blast
qed


theorem registry_order_witness:
  "plugin_contracts cfg_default dir_mixed =
     Inr [\<lparr>name = ''9'', abi = ''abi9'', address = Scalar ''0xB1''\<rparr>,
          \<lparr>name = ''10'', abi = ''abi10'', address = Scalar ''0xA1''\<rparr>,
          \<lparr>name = ''B'', abi = ''abiB'', address = Scalar ''0xA2''\<rparr>,
          \<lparr>name = ''A'', abi = ''abiA'', address = Scalar ''0xB2''\<rparr>] \<and>
   first_encounter_order cfg_default dir_mixed
     (filter (\<lambda>file. shouldIncludeFile file cfg_default) [''a.json'', ''b.json'']) =
     [''10'', ''B'', ''9'', ''A''] \<and>
   filter is_array_index [''9'', ''10'', ''B'', ''A''] = [''9'', ''10''] \<and>
   filter (\<lambda>k. \<not> is_array_index k) [''9'', ''10'', ''B'', ''A''] =
     filter (\<lambda>k. \<not> is_array_index k) [''10'', ''B'', ''9'', ''A''] \<and>
   sorted_wrt (\<lambda>a b. decimal_value a < decimal_value b) [''9'', ''10'']"
proof -
  have L: "listing dir_mixed = Inr [''a.json'', ''b.json'']"
    by (simp add: dir_mixed_def)
  have E: "first_encounter_order cfg_default dir_mixed
             (filter (\<lambda>file. shouldIncludeFile file cfg_default) [''a.json'', ''b.json'']) =
           [''10'', ''B'', ''9'', ''A'']"
    by (simp only: select_all_default events_mixed)
  have I: "filter is_array_index [''9'', ''10'', ''B'', ''A''] = [''9'', ''10'']"
    by (simp add: index_keys index_keys_mixed)
  have N: "map name
             [\<lparr>name = ''9'', abi = ''abi9'', address = Scalar ''0xB1''\<rparr>,
              \<lparr>name = ''10'', abi = ''abi10'', address = Scalar ''0xA1''\<rparr>,
              \<lparr>name = ''B'', abi = ''abiB'', address = Scalar ''0xA2''\<rparr>,
              \<lparr>name = ''A'', abi = ''abiA'', address = Scalar ''0xB2''\<rparr>] =
           [''9'', ''10'', ''B'', ''A'']"
    by simp
  note R = registry_order [OF run_mixed L refl refl, unfolded E N I]
  have S: "sorted_wrt (\<lambda>a b. decimal_value a < decimal_value b) [''9'', ''10'']"
    using R by blast
  have P: "filter (\<lambda>k. \<not> is_array_index k) [''9'', ''10'', ''B'', ''A''] =
           filter (\<lambda>k. \<not> is_array_index k) [''10'', ''B'', ''9'', ''A'']"
    using R by blast
  show ?thesis
    using run_mixed E I P S by blast
qed


text \<open>
  The claim as the specification states it fails: the scan meets \<open>B\<close> in the first
  file and \<open>1\<close> in the second, and the registry lists \<open>1\<close> first.
\<close>

theorem registry_order_counterexample:
  "listing dir_order = Inr [''a.json'', ''b.json''] \<and>
   plugin_contracts cfg_default dir_order =
     Inr [\<lparr>name = ''1'', abi = ''abi1'', address = Scalar ''0xBB''\<rparr>,
          \<lparr>name = ''B'', abi = ''abiB'', address = Scalar ''0xAA''\<rparr>] \<and>
   first_encounter_order cfg_default dir_order
     (filter (\<lambda>file. shouldIncludeFile file cfg_default) [''a.json'', ''b.json'']) =
     [''B'', ''1'']"
  by (simp add: run_order select_all_default events_order) (simp add: dir_order_def)




end
